theory Spec2Isabelle
  imports Main "HOL-Library.Multiset"
begin

section \<open>Strings\<close>

text \<open>
  A Go string is modelled as a \<open>string\<close>, the list of its bytes. The three functions of
  package \<open>strings\<close> that \<open>normalizePath\<close> calls are written out. \<open>strings.ToLower\<close> is
  modelled on the ASCII letters: a byte from \<open>A\<close> to \<open>Z\<close> moves to \<open>a\<close> .. \<open>z\<close>, every other
  byte stays.
\<close>

definition char_ToLower :: "char \<Rightarrow> char" where
  "char_ToLower c =
     (let n = (of_char c :: nat) in if 65 \<le> n \<and> n \<le> 90 then char_of (n + 32) else c)"

definition strings_ToLower :: "string \<Rightarrow> string" where
  "strings_ToLower s = map char_ToLower s"

definition strings_HasPrefix :: "string \<Rightarrow> string \<Rightarrow> bool" where
  "strings_HasPrefix s pre = (length pre \<le> length s \<and> take (length pre) s = pre)"

fun strings_Join :: "string list \<Rightarrow> string \<Rightarrow> string" where
  "strings_Join [] sep = []"
| "strings_Join [p] sep = p"
| "strings_Join (p # q # ps) sep = p @ sep @ strings_Join (q # ps) sep"

text \<open>
  Modelled from the spec: \<open>utils.SplitPath\<close> is called by \<open>normalizePath\<close> and its body is
  not part of the sources at hand. The specification says of it that the path is
  "split into segments on the path separator" and that afterwards the "segments [are]
  rejoined". \<open>split_on\<close> cuts a string at every separator; the segments of a path are the
  non-empty pieces between its separators, so that a leading, a trailing or a doubled
  \<open>/\<close> adds no segment.
\<close>

fun split_on :: "char \<Rightarrow> string \<Rightarrow> string list" where
  "split_on c [] = [[]]"
| "split_on c (x # xs) =
     (if x = c then [] # split_on c xs
      else (case split_on c xs of
              [] \<Rightarrow> [[x]]
            | seg # segs \<Rightarrow> (x # seg) # segs))"

definition SplitPath :: "string \<Rightarrow> string list" where
  "SplitPath p = filter (\<lambda>seg. seg \<noteq> []) (split_on (CHR ''/'') p)"

section \<open>The Api registry\<close>

text \<open>
  \<open>v1.ApiWorker\<close> is a generated message type: the code reads it through the getters
  \<open>GetPath\<close> and \<open>GetMethods\<close>, which accept a nil pointer and then return the zero value.
  A worker pointer is an \<open>ApiWorker option\<close>, \<open>None\<close> being nil. The field \<open>Target\<close> stands
  for the rest of the message, which the registry never reads.
\<close>

record 't ApiWorker =
  Path :: string
  Methods :: "string list"
  Target :: 't

definition GetPath :: "'t ApiWorker option \<Rightarrow> string" where
  "GetPath w = (case w of None \<Rightarrow> [] | Some x \<Rightarrow> Path x)"

definition GetMethods :: "'t ApiWorker option \<Rightarrow> string list" where
  "GetMethods w = (case w of None \<Rightarrow> [] | Some x \<Rightarrow> Methods x)"

text \<open>A Go slice value is either nil or a (possibly empty) sequence.\<close>

datatype 'a slice = Nil_slice | Slice "'a list"

text \<open>
  Modelled from the spec: \<open>FunctionDependencies\<close>, the owner of an Api, and its method
  \<open>AddError\<close> are not part of the sources at hand. The specification says that a collision
  is to "record a non-fatal conflict against the owning service": the owner keeps the list
  of the recorded messages and \<open>AddError\<close> appends to it.
\<close>

record FunctionDependencies =
  errors :: "string list"

definition AddError :: "FunctionDependencies \<Rightarrow> string \<Rightarrow> FunctionDependencies" where
  "AddError d err = d\<lparr>errors := errors d @ [err]\<rparr>"

text \<open>
  An Api is made by \<open>newApi\<close> for its owner, so its \<open>parent\<close> is never nil. The lock of
  the Api serialises the three operations: each is one atomic change of the record.
\<close>

record ('t, 'sd) Api =
  parent :: FunctionDependencies
  securityDefinitions :: "string \<rightharpoonup> 'sd"
  security :: "string \<rightharpoonup> string slice"
  workers :: "'t ApiWorker option list"

definition newApi :: "FunctionDependencies \<Rightarrow> ('t, 'sd) Api" where
  "newApi p = \<lparr>parent = p, securityDefinitions = Map.empty, security = Map.empty, workers = []\<rparr>"

definition normalizePart :: "string \<Rightarrow> string" where
  "normalizePart part = (if strings_HasPrefix part '':'' then '':param'' else strings_ToLower part)"

definition normalizePath :: "string \<Rightarrow> string" where
  "normalizePath path = strings_Join (map normalizePart (SplitPath path)) ''/''"

definition matchingWorkers :: "'t ApiWorker option \<Rightarrow> 't ApiWorker option \<Rightarrow> bool" where
  "matchingWorkers a b =
     (if normalizePath (GetPath a) = normalizePath (GetPath b)
      then list_ex (\<lambda>aMethod. list_ex (\<lambda>bMethod. aMethod = bMethod) (GetMethods b)) (GetMethods a)
      else False)"

definition overlapping_message :: string where
  "overlapping_message = ''overlapping worker %v already registered, can't add new worker %v''"

definition AddWorker :: "('t, 'sd) Api \<Rightarrow> 't ApiWorker option \<Rightarrow> ('t, 'sd) Api" where
  "AddWorker a worker =
     (if list_ex (\<lambda>existing. matchingWorkers existing worker) (workers a)
      then a\<lparr>parent := AddError (parent a) overlapping_message\<rparr>
      else a\<lparr>workers := workers a @ [worker]\<rparr>)"

definition AddSecurityDefinition :: "('t, 'sd) Api \<Rightarrow> string \<Rightarrow> 'sd \<Rightarrow> ('t, 'sd) Api" where
  "AddSecurityDefinition a name sd = a\<lparr>securityDefinitions := (securityDefinitions a)(name \<mapsto> sd)\<rparr>"

definition AddSecurity :: "('t, 'sd) Api \<Rightarrow> string \<Rightarrow> string slice \<Rightarrow> ('t, 'sd) Api" where
  "AddSecurity a name scopes =
     (case scopes of
        Slice xs \<Rightarrow> a\<lparr>security := (security a)(name \<mapsto> scopes)\<rparr>
      | Nil_slice \<Rightarrow> a\<lparr>security := (security a)(name \<mapsto> Slice [])\<rparr>)"

text \<open>
  The specification's reading of a collision, for comparison with \<open>AddWorker\<close>: some
  worker of the Api has the same normalized path as the new one and shares a method with it.
\<close>

definition collides :: "('t, 'sd) Api \<Rightarrow> 't ApiWorker option \<Rightarrow> bool" where
  "collides a w =
     (\<exists>e \<in> set (workers a).
        normalizePath (GetPath e) = normalizePath (GetPath w) \<and>
        set (GetMethods e) \<inter> set (GetMethods w) \<noteq> {})"

section \<open>Errors\<close>

text \<open>
  A non-nil Go \<open>error\<close> value is a \<open>go_error\<close>; a nil one is \<open>None\<close> of
  \<open>go_error option\<close>. \<open>ErrorString\<close> is what \<open>fmt.Errorf\<close> returns for a format without
  \<open>%w\<close>, \<open>WrapError\<close> what it returns with one (the formatted message and the wrapped
  error), \<open>JoinError\<close> what \<open>errors.Join\<close> returns.
\<close>

datatype go_error =
    ErrorString string
  | WrapError string go_error
  | JoinError "go_error list"

fun Error :: "go_error \<Rightarrow> string" where
  "Error (ErrorString m) = m"
| "Error (WrapError m e) = m"
| "Error (JoinError es) = strings_Join (map Error es) [CHR 0x0A]"

definition fmt_Errorf_w :: "string \<Rightarrow> go_error \<Rightarrow> go_error" where
  "fmt_Errorf_w pre err = WrapError (pre @ Error err) err"

text \<open>
  \<open>errors.Join\<close> drops the nil errors it is given and returns nil when none is left. The
  list below holds non-nil errors only.
\<close>

definition errors_Join :: "go_error list \<Rightarrow> go_error option" where
  "errors_Join errs = (if errs = [] then None else Some (JoinError errs))"

fun strings_Contains :: "string \<Rightarrow> string \<Rightarrow> bool" where
  "strings_Contains [] sub = (sub = [])"
| "strings_Contains (c # cs) sub = (strings_HasPrefix (c # cs) sub \<or> strings_Contains cs sub)"

section \<open>Projects and services\<close>

text \<open>
  Modelled from the spec: the type \<open>Service\<close> and its method \<open>GetFilePath\<close> are declared
  outside the sources at hand. The specification describes a service as an "immutable
  descriptor {name, source file path, declared type, start command, build context}";
  \<open>GetFilePath\<close> returns the source file path. The build context is not read by the
  functions modelled here.
\<close>

record Service =
  Name :: string
  Type :: string
  filepath :: string
  startCmd :: string

definition GetFilePath :: "Service \<Rightarrow> string" where
  "GetFilePath s = filepath s"

text \<open>
  Modelled from the spec: package \<open>preview\<close> is outside the sources at hand. A feature is
  a name of the project file's preview field; the message of \<open>collectServiceRequirements\<close>
  gives the name of the database feature.
\<close>

type_synonym Feature = string

definition Feature_SqlDatabases :: Feature where
  "Feature_SqlDatabases = ''sql-databases''"

text \<open>The field \<open>Name\<close> of a project is \<open>ProjectName\<close> here, apart from that of a service.\<close>

record Project =
  ProjectName :: string
  Directory :: string
  Preview :: "Feature list"
  services :: "Service list"

definition GetServices :: "Project \<Rightarrow> Service list" where
  "GetServices p = services p"

definition slices_Contains :: "'a list \<Rightarrow> 'a \<Rightarrow> bool" where
  "slices_Contains xs x = list_ex (\<lambda>y. y = x) xs"

section \<open>Collecting requirements\<close>

text \<open>
  Modelled from the spec: package \<open>collector\<close> is outside the sources at hand. A
  \<open>ServiceRequirements\<close> is the specification's RequirementsSet, created empty for one
  service and filled by the registration calls of that service; \<open>HasDatabases\<close> says
  whether it "declares SQL/database usage". Of the accumulators only the SQL
  databases are read by the functions modelled here.
\<close>

record ServiceRequirements =
  serviceName :: string
  serviceFile :: string
  serviceType :: string
  sqlDatabases :: "string list"

definition NewServiceRequirements :: "string \<Rightarrow> string \<Rightarrow> string \<Rightarrow> ServiceRequirements" where
  "NewServiceRequirements name file type =
     \<lparr>serviceName = name, serviceFile = file, serviceType = type, sqlDatabases = []\<rparr>"

definition HasDatabases :: "ServiceRequirements \<Rightarrow> bool" where
  "HasDatabases r = (length (sqlDatabases r) > 0)"

text \<open>
  What one session meets outside the program: the result of \<open>net.Listen\<close> (an error, or
  the address of the listener), the result of \<open>net.SplitHostPort\<close> on that address (an
  error, or the port), the error \<open>RunContainer\<close> returns (\<open>None\<close> when the service process
  completes), and the effect that the registration calls made by the service while it ran
  have on the requirements of the session.
\<close>

record session_events =
  listen :: "go_error + string"
  split_port :: "go_error + string"
  run_container :: "go_error option"
  registered :: "ServiceRequirements \<Rightarrow> ServiceRequirements"

definition database_message :: "string \<Rightarrow> string" where
  "database_message file =
     ''service '' @ file @
     '' requires a database, but the project does not have the 'sql-databases' preview feature enabled. Please add sql-databases to the preview field of your nitric.yaml file to enable this feature''"

definition collectServiceRequirements ::
    "Project \<Rightarrow> Service \<Rightarrow> session_events \<Rightarrow> go_error + ServiceRequirements" where
  "collectServiceRequirements p service ev =
     (let serviceRequirements =
            NewServiceRequirements (Name service) (GetFilePath service) (Type service)
      in case listen ev of
           Inl err \<Rightarrow> Inl err
         | Inr addr \<Rightarrow>
            (case split_port ev of
               Inl err \<Rightarrow>
                 Inl (fmt_Errorf_w
                   ''unable to split host and port for local Nitric collection server: '' err)
             | Inr port \<Rightarrow>
                (case run_container ev of
                   Some err \<Rightarrow> Inl err
                 | None \<Rightarrow>
                    (let collected = registered ev serviceRequirements
                     in if HasDatabases collected \<and>
                           \<not> slices_Contains (Preview p) Feature_SqlDatabases
                        then Inl (ErrorString (database_message (GetFilePath service)))
                        else Inr collected))))"

text \<open>
  \<open>CollectServicesRequirements\<close> starts one goroutine per service and waits for all of
  them. Each goroutine appends, under a lock, either to the list of requirements or to the
  list of errors, so the two lists are filled in the order in which the goroutines finish.
  That order is the parameter \<open>finished\<close>: the indices of the services, each goroutine once.
\<close>

record collect_state =
  allServiceRequirements :: "ServiceRequirements list"
  serviceErrors :: "go_error list"

definition collect_goroutine ::
    "Project \<Rightarrow> (nat \<Rightarrow> session_events) \<Rightarrow> collect_state \<Rightarrow> nat \<Rightarrow> collect_state" where
  "collect_goroutine p evs st i =
     (case collectServiceRequirements p (services p ! i) (evs i) of
        Inl err \<Rightarrow> st\<lparr>serviceErrors := serviceErrors st @ [err]\<rparr>
      | Inr serviceRequirements \<Rightarrow>
          st\<lparr>allServiceRequirements := allServiceRequirements st @ [serviceRequirements]\<rparr>)"

definition CollectServicesRequirements ::
    "Project \<Rightarrow> (nat \<Rightarrow> session_events) \<Rightarrow> nat list \<Rightarrow>
       ServiceRequirements list option \<times> go_error option" where
  "CollectServicesRequirements p evs finished =
     (let st = foldl (collect_goroutine p evs)
                 \<lparr>allServiceRequirements = [], serviceErrors = []\<rparr> finished
      in if length (serviceErrors st) > 0
         then (None, errors_Join (serviceErrors st))
         else (Some (allServiceRequirements st), None))"

text \<open>
  The result of the session of service \<open>i\<close>, and the services whose session fails.
\<close>

definition session_result ::
    "Project \<Rightarrow> (nat \<Rightarrow> session_events) \<Rightarrow> nat \<Rightarrow> go_error + ServiceRequirements" where
  "session_result p evs i = collectServiceRequirements p (services p ! i) (evs i)"

definition failing :: "Project \<Rightarrow> (nat \<Rightarrow> session_events) \<Rightarrow> nat list" where
  "failing p evs = filter (\<lambda>i. isl (session_result p evs i)) [0..<length (services p)]"

section \<open>Building the services\<close>

text \<open>
  Modelled from the spec: the type \<open>ServiceBuildUpdate\<close>, its statuses and
  \<open>NewBuildUpdateWriter\<close> are declared outside the sources at hand. The specification gives
  a build update as "{service name, status \<in> {Building, Complete, Error}, message, optional
  error}"; the writer handed to \<open>BuildImage\<close> turns every chunk of build output into an
  update of status Building on the same channel.
\<close>

datatype ServiceBuildStatus =
    ServiceBuildStatus_Building
  | ServiceBuildStatus_Complete
  | ServiceBuildStatus_Error

record ServiceBuildUpdate =
  ServiceName :: string
  Message :: string
  Status :: ServiceBuildStatus
  Err :: "go_error option"

definition writer_update :: "string \<Rightarrow> string \<Rightarrow> ServiceBuildUpdate" where
  "writer_update name chunk =
     \<lparr>ServiceName = name, Message = chunk, Status = ServiceBuildStatus_Building, Err = None\<rparr>"

text \<open>The update a build goroutine sends once \<open>BuildImage\<close> has returned.\<close>

definition build_update :: "Service \<Rightarrow> go_error option \<Rightarrow> ServiceBuildUpdate" where
  "build_update svc r =
     (case r of
        Some err \<Rightarrow>
          \<lparr>ServiceName = Name svc, Message = Error err,
           Status = ServiceBuildStatus_Error, Err = Some err\<rparr>
      | None \<Rightarrow>
          \<lparr>ServiceName = Name svc, Message = ''Build Complete'',
           Status = ServiceBuildStatus_Complete, Err = None\<rparr>)"

definition terminal :: "ServiceBuildUpdate \<Rightarrow> bool" where
  "terminal u = (Status u = ServiceBuildStatus_Complete \<or> Status u = ServiceBuildStatus_Error)"

text \<open>
  What one call of \<open>BuildImage\<close> does, seen from \<open>BuildServices\<close>: it writes chunks of
  output to its writer and returns an error or nil.
\<close>

record build_events =
  chunks :: "string list"
  result :: "go_error option"

text \<open>
  \<open>BuildServices\<close> is concurrent: the calling goroutine, one goroutine per service and the
  goroutine that closes the channel. Each is a program counter, and a step of one goroutine
  is one statement of the source.

  \<^item> The caller: \<open>Main_Add i\<close> is the head of the loop at service \<open>i\<close> (\<open>waitGroup.Add\<close> comes
    next, or the end of the loop), \<open>Main_Go i\<close> the \<open>go\<close> statement of service \<open>i\<close>,
    \<open>Main_Return\<close> the state after the closing goroutine is started and the channel returned.
  \<^item> A build goroutine: \<open>W_Acquire\<close> before the send on \<open>maxConcurrentBuilds\<close>, \<open>W_Build cs\<close>
    inside \<open>BuildImage\<close> with the chunks \<open>cs\<close> still to write, \<open>W_Send r\<close> before the send of
    the update for the result \<open>r\<close>, \<open>W_Release\<close> before the receive from
    \<open>maxConcurrentBuilds\<close>, \<open>W_Done\<close> before \<open>waitGroup.Done\<close>, \<open>W_Exit\<close> at its end.
  \<^item> The closing goroutine: \<open>C_Wait\<close> at \<open>waitGroup.Wait\<close>, \<open>C_Drain j\<close> in the loop that
    fills \<open>maxConcurrentBuilds\<close> with \<open>j\<close> sends made, \<open>C_Exit\<close> after \<open>close\<close>.
\<close>

datatype main_pc = Main_Add nat | Main_Go nat | Main_Return

datatype worker_pc =
    W_Acquire
  | W_Build "string list"
  | W_Send "go_error option"
  | W_Release
  | W_Done
  | W_Exit

datatype closer_pc = C_NotStarted | C_Wait | C_Drain nat | C_Exit

text \<open>
  The shared state: \<open>maxConcurrentBuilds\<close> is the number of tokens in the buffered channel
  of that name, \<open>waitGroup\<close> the counter of the wait group, \<open>updatesChan\<close> the updates
  sent on the channel so far, in order. The channel is unbuffered; its receiver is taken to
  be ready for every send. \<open>panicked\<close> is set by a send on the closed channel, by a second
  \<open>close\<close> and by a negative wait group counter.
\<close>

record build_state =
  main :: main_pc
  wpc :: "worker_pc list"
  closer :: closer_pc
  maxConcurrentBuilds :: nat
  waitGroup :: nat
  updatesChan :: "ServiceBuildUpdate list"
  closed :: bool
  panicked :: bool

datatype goroutine = Main | Worker nat | Closer

definition chan_send :: "build_state \<Rightarrow> ServiceBuildUpdate \<Rightarrow> build_state" where
  "chan_send s u =
     (if closed s then s\<lparr>panicked := True\<rparr> else s\<lparr>updatesChan := updatesChan s @ [u]\<rparr>)"

definition set_wpc :: "nat \<Rightarrow> worker_pc \<Rightarrow> build_state \<Rightarrow> build_state" where
  "set_wpc i pc s = s\<lparr>wpc := (wpc s)[i := pc]\<rparr>"

text \<open>
  One step of one goroutine; \<open>None\<close> when the goroutine is blocked, not started or at its
  end, and for every goroutine once the program has panicked. \<open>cap\<close> is the capacity of
  \<open>maxConcurrentBuilds\<close>, \<open>evs i\<close> what the build of service \<open>i\<close> does.
\<close>

fun main_step :: "Project \<Rightarrow> main_pc \<Rightarrow> build_state \<Rightarrow> build_state option" where
  "main_step p (Main_Add i) s =
     (if i < length (services p)
      then Some (s\<lparr>waitGroup := waitGroup s + 1, main := Main_Go i\<rparr>)
      else Some (s\<lparr>closer := C_Wait, main := Main_Return\<rparr>))"
| "main_step p (Main_Go i) s = Some (s\<lparr>wpc := wpc s @ [W_Acquire], main := Main_Add (i + 1)\<rparr>)"
| "main_step p Main_Return s = None"

fun worker_step ::
    "Project \<Rightarrow> nat \<Rightarrow> (nat \<Rightarrow> build_events) \<Rightarrow> nat \<Rightarrow> worker_pc \<Rightarrow> build_state \<Rightarrow>
       build_state option" where
  "worker_step p cap evs i W_Acquire s =
     (if maxConcurrentBuilds s < cap
      then Some (set_wpc i (W_Build (chunks (evs i)))
                   (s\<lparr>maxConcurrentBuilds := maxConcurrentBuilds s + 1\<rparr>))
      else None)"
| "worker_step p cap evs i (W_Build (c # cs)) s =
     Some (set_wpc i (W_Build cs) (chan_send s (writer_update (Name (services p ! i)) c)))"
| "worker_step p cap evs i (W_Build []) s = Some (set_wpc i (W_Send (result (evs i))) s)"
| "worker_step p cap evs i (W_Send r) s =
     Some (set_wpc i W_Release (chan_send s (build_update (services p ! i) r)))"
| "worker_step p cap evs i W_Release s =
     (if maxConcurrentBuilds s > 0
      then Some (set_wpc i W_Done (s\<lparr>maxConcurrentBuilds := maxConcurrentBuilds s - 1\<rparr>))
      else None)"
| "worker_step p cap evs i W_Done s =
     (if waitGroup s > 0
      then Some (set_wpc i W_Exit (s\<lparr>waitGroup := waitGroup s - 1\<rparr>))
      else Some (s\<lparr>panicked := True\<rparr>))"
| "worker_step p cap evs i W_Exit s = None"

fun closer_step :: "nat \<Rightarrow> closer_pc \<Rightarrow> build_state \<Rightarrow> build_state option" where
  "closer_step cap C_NotStarted s = None"
| "closer_step cap C_Wait s = (if waitGroup s = 0 then Some (s\<lparr>closer := C_Drain 0\<rparr>) else None)"
| "closer_step cap (C_Drain j) s =
     (if j < cap
      then (if maxConcurrentBuilds s < cap
            then Some (s\<lparr>maxConcurrentBuilds := maxConcurrentBuilds s + 1, closer := C_Drain (j + 1)\<rparr>)
            else None)
      else (if closed s then Some (s\<lparr>panicked := True\<rparr>)
            else Some (s\<lparr>closed := True, closer := C_Exit\<rparr>)))"
| "closer_step cap C_Exit s = None"

definition step ::
    "Project \<Rightarrow> nat \<Rightarrow> (nat \<Rightarrow> build_events) \<Rightarrow> goroutine \<Rightarrow> build_state \<Rightarrow>
       build_state option" where
  "step p cap evs g s =
     (if panicked s then None
      else case g of
             Main \<Rightarrow> main_step p (main s) s
           | Worker i \<Rightarrow>
               (if i < length (wpc s) then worker_step p cap evs i (wpc s ! i) s else None)
           | Closer \<Rightarrow> closer_step cap (closer s) s)"

text \<open>
  A schedule is the list of the goroutines in the order in which they are given a turn; a
  goroutine that cannot step when its turn comes leaves the state as it is.
\<close>

fun exec ::
    "Project \<Rightarrow> nat \<Rightarrow> (nat \<Rightarrow> build_events) \<Rightarrow> goroutine list \<Rightarrow> build_state \<Rightarrow>
       build_state" where
  "exec p cap evs [] s = s"
| "exec p cap evs (g # gs) s =
     exec p cap evs gs (case step p cap evs g s of None \<Rightarrow> s | Some s' \<Rightarrow> s')"

definition build_start :: build_state where
  "build_start =
     \<lparr>main = Main_Add 0, wpc = [], closer = C_NotStarted, maxConcurrentBuilds = 0,
      waitGroup = 0, updatesChan = [], closed = False, panicked = False\<rparr>"

definition no_services_message :: string where
  "no_services_message =
     ''no services found in project, nothing to build. This may indicate misconfigured `match` patterns in your nitric.yaml file''"

text \<open>
  \<open>BuildServices\<close> returns the channel or an error. With services to build, its goroutines
  start from \<open>build_start\<close>, the state once both channels are made; the value returned
  stands for the channel of that system. The capacity of \<open>maxConcurrentBuilds\<close> is
  \<open>build_cap numCPU gomaxprocs\<close>, from \<open>runtime.NumCPU()\<close> and \<open>runtime.GOMAXPROCS(0)\<close>.
\<close>

definition build_cap :: "nat \<Rightarrow> nat \<Rightarrow> nat" where
  "build_cap numCPU gomaxprocs = min numCPU gomaxprocs"

definition BuildServices :: "Project \<Rightarrow> build_state option \<times> go_error option" where
  "BuildServices p =
     (if length (services p) = 0 then (None, Some (ErrorString no_services_message))
      else (Some build_start, None))"


fun holds_permit :: "worker_pc \<Rightarrow> bool" where
  "holds_permit (W_Build cs) = True"
| "holds_permit (W_Send r) = True"
| "holds_permit W_Release = True"
| "holds_permit pc = False"

fun has_sent :: "worker_pc \<Rightarrow> bool" where
  "has_sent W_Release = True"
| "has_sent W_Done = True"
| "has_sent W_Exit = True"
| "has_sent pc = False"


definition permits_held :: "build_state \<Rightarrow> nat" where
  "permits_held s = length (filter holds_permit (wpc s))"

text \<open>The tokens that the closing goroutine has put into \<open>maxConcurrentBuilds\<close>.\<close>

fun drained :: "nat \<Rightarrow> closer_pc \<Rightarrow> nat" where
  "drained cap (C_Drain j) = j"
| "drained cap C_Exit = cap"
| "drained cap pc = 0"

text \<open>
  The update that the goroutine of service \<open>i\<close> sends at its end, the updates of the
  goroutines that have sent theirs (\<open>k\<close> is the index of the first goroutine of the list),
  and the updates of all services.
\<close>

definition service_update :: "Project \<Rightarrow> (nat \<Rightarrow> build_events) \<Rightarrow> nat \<Rightarrow> ServiceBuildUpdate" where
  "service_update p evs i = build_update (services p ! i) (result (evs i))"

fun sent_from :: "Project \<Rightarrow> (nat \<Rightarrow> build_events) \<Rightarrow> nat \<Rightarrow> worker_pc list \<Rightarrow> ServiceBuildUpdate list" where
  "sent_from p evs k [] = []"
| "sent_from p evs k (pc # pcs) =
     (if has_sent pc then [service_update p evs k] else []) @ sent_from p evs (k + 1) pcs"

definition all_updates :: "Project \<Rightarrow> (nat \<Rightarrow> build_events) \<Rightarrow> ServiceBuildUpdate list" where
  "all_updates p evs = map (service_update p evs) [0..<length (services p)]"

text \<open>The invariant of the goroutines of \<open>BuildServices\<close>.\<close>

definition main_inv :: "Project \<Rightarrow> build_state \<Rightarrow> bool" where
  "main_inv p s =
     (case main s of
        Main_Add i \<Rightarrow> length (wpc s) = i \<and> i \<le> length (services p) \<and> closer s = C_NotStarted
      | Main_Go i \<Rightarrow> length (wpc s) = i \<and> i < length (services p) \<and> closer s = C_NotStarted
      | Main_Return \<Rightarrow> length (wpc s) = length (services p) \<and> closer s \<noteq> C_NotStarted)"

definition wait_inv :: "build_state \<Rightarrow> bool" where
  "wait_inv s =
     (waitGroup s =
        length (filter (\<lambda>pc. pc \<noteq> W_Exit) (wpc s)) +
        (case main s of Main_Go i \<Rightarrow> 1 | _ \<Rightarrow> 0))"

definition permit_inv :: "nat \<Rightarrow> build_state \<Rightarrow> bool" where
  "permit_inv cap s =
     (maxConcurrentBuilds s = permits_held s + drained cap (closer s) \<and>
      maxConcurrentBuilds s \<le> cap)"

definition closer_inv :: "nat \<Rightarrow> build_state \<Rightarrow> bool" where
  "closer_inv cap s =
     (case closer s of
        C_NotStarted \<Rightarrow> \<not> closed s
      | C_Wait \<Rightarrow> \<not> closed s
      | C_Drain j \<Rightarrow> \<not> closed s \<and> j \<le> cap \<and> list_all (\<lambda>pc. pc = W_Exit) (wpc s)
      | C_Exit \<Rightarrow> closed s \<and> list_all (\<lambda>pc. pc = W_Exit) (wpc s))"

definition result_inv :: "(nat \<Rightarrow> build_events) \<Rightarrow> build_state \<Rightarrow> bool" where
  "result_inv evs s = (\<forall>i < length (wpc s). \<forall>r. wpc s ! i = W_Send r \<longrightarrow> r = result (evs i))"

definition updates_inv :: "Project \<Rightarrow> (nat \<Rightarrow> build_events) \<Rightarrow> build_state \<Rightarrow> bool" where
  "updates_inv p evs s =
     (mset (filter terminal (updatesChan s)) = mset (sent_from p evs 0 (wpc s)))"

definition build_inv :: "Project \<Rightarrow> nat \<Rightarrow> (nat \<Rightarrow> build_events) \<Rightarrow> build_state \<Rightarrow> bool" where
  "build_inv p cap evs s =
     (\<not> panicked s \<and> main_inv p s \<and> wait_inv s \<and> permit_inv cap s \<and> closer_inv cap s \<and>
      result_inv evs s \<and> updates_inv p evs s)"

text \<open>
  The number of steps that the goroutines have left: the statements each of them still
  has to execute.
\<close>

fun main_left :: "nat \<Rightarrow> main_pc \<Rightarrow> nat" where
  "main_left n (Main_Add i) = 2 * (n - i) + 1"
| "main_left n (Main_Go i) = 2 * (n - i)"
| "main_left n Main_Return = 0"

fun pc_left :: "build_events \<Rightarrow> worker_pc \<Rightarrow> nat" where
  "pc_left ev W_Acquire = length (chunks ev) + 5"
| "pc_left ev (W_Build cs) = length cs + 4"
| "pc_left ev (W_Send r) = 3"
| "pc_left ev W_Release = 2"
| "pc_left ev W_Done = 1"
| "pc_left ev W_Exit = 0"

fun work_left :: "(nat \<Rightarrow> build_events) \<Rightarrow> nat \<Rightarrow> worker_pc list \<Rightarrow> nat" where
  "work_left evs k [] = 0"
| "work_left evs k (pc # pcs) = pc_left (evs k) pc + work_left evs (k + 1) pcs"

fun closer_left :: "nat \<Rightarrow> closer_pc \<Rightarrow> nat" where
  "closer_left cap C_NotStarted = cap + 2"
| "closer_left cap C_Wait = cap + 2"
| "closer_left cap (C_Drain j) = cap - j + 1"
| "closer_left cap C_Exit = 0"

definition steps_left :: "Project \<Rightarrow> nat \<Rightarrow> (nat \<Rightarrow> build_events) \<Rightarrow> build_state \<Rightarrow> nat" where
  "steps_left p cap evs s =
     main_left (length (services p)) (main s) +
     work_left evs 0 (wpc s) +
     sum_list (map (\<lambda>i. pc_left (evs i) W_Acquire) [length (wpc s)..<length (services p)]) +
     closer_left cap (closer s)"

section \<open>Example data\<close>

text \<open>Concrete workers, Apis and services at which the theorems below are instantiated.\<close>

definition worker :: "string \<Rightarrow> string list \<Rightarrow> unit ApiWorker option" where
  "worker path ms = Some \<lparr>Path = path, Methods = ms, Target = ()\<rparr>"

definition api0 :: "(unit, unit) Api" where
  "api0 = newApi \<lparr>errors = []\<rparr>"

definition api1 :: "(unit, unit) Api" where
  "api1 = AddWorker api0 (worker ''/users/:id'' [''GET''])"

definition service_orders :: Service where
  "service_orders =
     \<lparr>Name = ''shop_services-orders'', Type = ''default'', filepath = ''services/orders.ts'',
      startCmd = []\<rparr>"

definition service_named :: "string \<Rightarrow> Service" where
  "service_named n = \<lparr>Name = n, Type = ''default'', filepath = n @ ''.ts'', startCmd = []\<rparr>"

definition project_shop :: "Feature list \<Rightarrow> Project" where
  "project_shop fs =
     \<lparr>ProjectName = ''shop'', Directory = ''.'', Preview = fs, services = [service_orders]\<rparr>"

definition project_abc :: Project where
  "project_abc =
     \<lparr>ProjectName = ''abc'', Directory = ''.'', Preview = [],
      services = [service_named ''A'', service_named ''B'', service_named ''C'']\<rparr>"

text \<open>A session whose service runs to its end and declares one SQL database.\<close>

definition session_sql :: session_events where
  "session_sql =
     \<lparr>listen = Inr ''[::]:50051'', split_port = Inr ''50051'', run_container = None,
      registered = (\<lambda>r. r\<lparr>sqlDatabases := sqlDatabases r @ [''orders-db'']\<rparr>)\<rparr>"

text \<open>A session whose service runs to its end and declares nothing.\<close>

definition session_plain :: session_events where
  "session_plain =
     \<lparr>listen = Inr ''[::]:50052'', split_port = Inr ''50052'', run_container = None,
      registered = (\<lambda>r. r)\<rparr>"

text \<open>A session whose service process fails.\<close>

definition session_crash :: session_events where
  "session_crash =
     \<lparr>listen = Inr ''[::]:50053'', split_port = Inr ''50053'',
      run_container = Some (ErrorString ''exit status 1''), registered = (\<lambda>r. r)\<rparr>"

definition sessions_abc :: "nat \<Rightarrow> session_events" where
  "sessions_abc i = (if i = 1 then session_crash else session_plain)"

text \<open>
  Three services of which the second fails to build, on a machine with two CPUs, and a
  schedule that runs their builds to the end: the caller starts all goroutines; the builds
  of A and B take the two permits, the build of C and the closing goroutine have to wait;
  B fails, C and A complete; the closing goroutine takes both permits and closes.
\<close>

definition project_empty :: Project where
  "project_empty = \<lparr>ProjectName = ''empty'', Directory = ''.'', Preview = [], services = []\<rparr>"

definition builds_abc :: "nat \<Rightarrow> build_events" where
  "builds_abc i =
     (if i = 1 then \<lparr>chunks = [''compiling''], result = Some (ErrorString ''exit status 1'')\<rparr>
      else \<lparr>chunks = [''compiling''], result = None\<rparr>)"

definition schedule_start :: "goroutine list" where
  "schedule_start =
     [Main, Main, Main, Main, Main, Main, Main, Worker 0, Worker 1, Worker 2, Closer]"

definition schedule_abc :: "goroutine list" where
  "schedule_abc =
     schedule_start @
     [Worker 1, Worker 1, Worker 1, Worker 1, Worker 1, Worker 2,
      Worker 0, Worker 0, Worker 0, Worker 0, Worker 0,
      Worker 2, Worker 2, Worker 2, Worker 2, Worker 2,
      Closer, Closer, Closer, Closer]"

section \<open>Properties of the string functions\<close>













section \<open>Path normalization\<close>








section \<open>The Api registry: collisions\<close>

lemma matchingWorkers_iff:
  "matchingWorkers a b \<longleftrightarrow>
     normalizePath (GetPath a) = normalizePath (GetPath b) \<and>
     set (GetMethods a) \<inter> set (GetMethods b) \<noteq> {}"
  by (auto simp: matchingWorkers_def list_ex_iff)

lemma AddWorker_collides:
  "AddWorker a w =
     (if collides a w then a\<lparr>parent := AddError (parent a) overlapping_message\<rparr>
      else a\<lparr>workers := workers a @ [w]\<rparr>)"
  by (simp add: AddWorker_def collides_def list_ex_iff matchingWorkers_iff)

lemma normalizePath_brace_id: "normalizePath ''/users/{id}'' = ''users/{id}''"
  by code_simp

lemma normalizePath_brace_userId: "normalizePath ''/users/{userId}'' = ''users/{userid}''"
  by code_simp

lemma normalizePath_colon_id: "normalizePath ''/users/:id'' = ''users/:param''"
  by code_simp

lemma normalizePath_colon_userId: "normalizePath ''/users/:userId'' = ''users/:param''"
  by code_simp

lemma workers_api0: "workers api0 = []"
  by (simp add: api0_def newApi_def)

lemma workers_api1: "workers api1 = [worker ''/users/:id'' [''GET'']]"
  by (simp add: api1_def AddWorker_def workers_api0)


text \<open>
  Claim C1, as stated, fails: \<open>normalizePath\<close> takes a segment for a parameter when it
  starts with a colon, so \<open>{id}\<close> and \<open>{userId}\<close> are ordinary segments, lower-cased and
  compared as they are. The workers \<open>/users/{id}\<close> and \<open>/users/{userId}\<close>, both with
  method GET, do not match, and both are kept.
\<close>

theorem AddWorker_brace_params_counterexample:
  "\<not> matchingWorkers (worker ''/users/{id}'' [''GET'']) (worker ''/users/{userId}'' [''GET'']) \<and>
   workers (AddWorker (AddWorker api0 (worker ''/users/{id}'' [''GET'']))
              (worker ''/users/{userId}'' [''GET''])) =
     [worker ''/users/{id}'' [''GET''], worker ''/users/{userId}'' [''GET'']]"
  by (simp add: AddWorker_def matchingWorkers_def workers_api0 worker_def GetPath_def
      GetMethods_def normalizePath_brace_id normalizePath_brace_userId)

text \<open>
  Claim C1, amended: for every Api, two workers whose paths are \<open>/users/:id\<close> and
  \<open>/users/:userId\<close> (equal except for the names of the colon-prefixed parameter segments),
  added one after the other when neither collides with a worker already there: if their
  method sets share a method the later one is dropped, and if the method sets are disjoint
  both are kept.
\<close>

theorem AddWorker_colon_params:
  assumes "GetPath w1 = ''/users/:id''" and "GetPath w2 = ''/users/:userId''"
    and "\<not> collides a w1" and "\<not> collides a w2"
  shows "workers (AddWorker (AddWorker a w1) w2) =
           (if set (GetMethods w1) \<inter> set (GetMethods w2) \<noteq> {}
            then workers a @ [w1] else workers a @ [w1, w2])"
proof -
  have a1: "AddWorker a w1 = a\<lparr>workers := workers a @ [w1]\<rparr>"
    using assms(3) by (simp add: AddWorker_collides)
  have "collides (a\<lparr>workers := workers a @ [w1]\<rparr>) w2 \<longleftrightarrow>
          set (GetMethods w1) \<inter> set (GetMethods w2) \<noteq> {}"
    using assms(1,2,4)
    by (auto simp: collides_def normalizePath_colon_id normalizePath_colon_userId)
  then show ?thesis
    by (simp add: a1 AddWorker_collides [of "a\<lparr>workers := workers a @ [w1]\<rparr>"])
qed

theorem AddWorker_colon_params_witness:
  "workers (AddWorker (AddWorker api0 (worker ''/users/:id'' [''GET'', ''PUT'']))
              (worker ''/users/:userId'' [''GET''])) =
     [worker ''/users/:id'' [''GET'', ''PUT'']] \<and>
   workers (AddWorker (AddWorker api0 (worker ''/users/:id'' [''GET'']))
              (worker ''/users/:userId'' [''POST''])) =
     [worker ''/users/:id'' [''GET''], worker ''/users/:userId'' [''POST'']]"
  using
    AddWorker_colon_params [of "worker ''/users/:id'' [''GET'', ''PUT'']"
      "worker ''/users/:userId'' [''GET'']" api0]
    AddWorker_colon_params [of "worker ''/users/:id'' [''GET'']"
      "worker ''/users/:userId'' [''POST'']" api0]
  by (simp add: GetPath_def GetMethods_def collides_def workers_api0 worker_def)



section \<open>The Api registry: security and frame\<close>

text \<open>
  Claim C5. For every Api and every name, \<open>AddSecurity\<close> with nil scopes stores an explicit
  empty scope list under the name: the lookup afterwards finds an entry, and the entry is
  the empty list. A second \<open>AddSecurity\<close> or \<open>AddSecurityDefinition\<close> under the same name
  overwrites the first: the Api is the one the last call alone would have produced.
\<close>

theorem AddSecurity_last_write_wins:
  "security (AddSecurity a name Nil_slice) name = Some (Slice []) \<and>
   AddSecurity (AddSecurity a name scopes) name scopes' = AddSecurity a name scopes' \<and>
   security (AddSecurity (AddSecurity a name scopes) name (Slice xs)) name = Some (Slice xs) \<and>
   security (AddSecurity (AddSecurity a name scopes) name Nil_slice) name = Some (Slice []) \<and>
   AddSecurityDefinition (AddSecurityDefinition a name sd) name sd' =
     AddSecurityDefinition a name sd' \<and>
   securityDefinitions (AddSecurityDefinition (AddSecurityDefinition a name sd) name sd') name =
     Some sd'"
  by (simp add: AddSecurity_def AddSecurityDefinition_def split: slice.splits)

text \<open>
  Claim C10. \<open>AddWorker\<close> leaves both security maps as they are, and the old worker list
  is a prefix of the new one. \<open>AddSecurity\<close> and \<open>AddSecurityDefinition\<close> leave the worker
  list, the owner and the other map as they are, and in their own map the entry of every
  other name.
\<close>

theorem Api_frame:
  "security (AddWorker a w) = security a \<and>
   securityDefinitions (AddWorker a w) = securityDefinitions a \<and>
   (\<exists>added. workers (AddWorker a w) = workers a @ added) \<and>
   workers (AddSecurity a name scopes) = workers a \<and>
   securityDefinitions (AddSecurity a name scopes) = securityDefinitions a \<and>
   parent (AddSecurity a name scopes) = parent a \<and>
   (\<forall>other. other \<noteq> name \<longrightarrow> security (AddSecurity a name scopes) other = security a other) \<and>
   workers (AddSecurityDefinition a name sd) = workers a \<and>
   security (AddSecurityDefinition a name sd) = security a \<and>
   parent (AddSecurityDefinition a name sd) = parent a \<and>
   (\<forall>other. other \<noteq> name \<longrightarrow>
      securityDefinitions (AddSecurityDefinition a name sd) other = securityDefinitions a other)"
  by (simp add: AddWorker_def AddSecurity_def AddSecurityDefinition_def split: slice.splits)

theorem Api_frame_witness:
  "security (AddSecurity (AddSecurity api1 ''jwt'' (Slice [''read''])) ''oidc'' Nil_slice) ''jwt'' =
     Some (Slice [''read'']) \<and>
   securityDefinitions (AddSecurityDefinition (AddSecurityDefinition api1 ''jwt'' ()) ''oidc'' ())
     ''jwt'' = Some () \<and>
   workers (AddSecurity api1 ''jwt'' Nil_slice) = [worker ''/users/:id'' [''GET'']] \<and>
   security (AddWorker (AddSecurity api1 ''jwt'' Nil_slice) (worker ''/orders'' [''GET''])) ''jwt'' =
     Some (Slice [])"
  using
    Api_frame [of "AddSecurity api1 ''jwt'' (Slice [''read''])" "worker ''/orders'' [''GET'']"
      "''oidc''" Nil_slice "()"]
    Api_frame [of "AddSecurityDefinition api1 ''jwt'' ()" "worker ''/orders'' [''GET'']"
      "''oidc''" Nil_slice "()"]
    Api_frame [of api1 "worker ''/orders'' [''GET'']" "''jwt''" Nil_slice "()"]
    Api_frame [of "AddSecurity api1 ''jwt'' Nil_slice" "worker ''/orders'' [''GET'']"
      "''jwt''" Nil_slice "()"]
  by (simp add: AddSecurity_def AddSecurityDefinition_def workers_api1)

section \<open>Collecting requirements: one session\<close>

lemma strings_HasPrefix_append: "strings_HasPrefix (b @ c) b"
  by (simp add: strings_HasPrefix_def)

lemma strings_Contains_prefix: "strings_Contains (b @ c) b"
proof (cases "b @ c")
  case Nil
  then show ?thesis by simp
next
  case (Cons x xs)
  have "strings_HasPrefix (b @ c) b" by (rule strings_HasPrefix_append)
  then show ?thesis by (simp add: Cons)
qed

lemma strings_Contains_mid: "strings_Contains (a @ b @ c) b"
  by (induction a) (simp_all add: strings_Contains_prefix)

lemma slices_Contains_iff: "slices_Contains xs x \<longleftrightarrow> x \<in> set xs"
  by (auto simp: slices_Contains_def list_ex_iff)

lemma collect_completed:
  assumes "listen ev = Inr addr" and "split_port ev = Inr port" and "run_container ev = None"
  shows "collectServiceRequirements p s ev =
           (if HasDatabases (registered ev (NewServiceRequirements (Name s) (GetFilePath s) (Type s))) \<and>
               Feature_SqlDatabases \<notin> set (Preview p)
            then Inl (ErrorString (database_message (GetFilePath s)))
            else Inr (registered ev (NewServiceRequirements (Name s) (GetFilePath s) (Type s))))"
  using assms by (simp add: collectServiceRequirements_def Let_def slices_Contains_iff)

lemma GetFilePath_service_orders: "GetFilePath service_orders = ''services/orders.ts''"
  by (simp add: GetFilePath_def service_orders_def)

lemma HasDatabases_session_sql: "HasDatabases (registered session_sql (NewServiceRequirements n f t))"
  by (simp add: HasDatabases_def session_sql_def NewServiceRequirements_def)

lemma session_sql_completes:
  "listen session_sql = Inr ''[::]:50051''" "split_port session_sql = Inr ''50051''"
  "run_container session_sql = None"
  by (simp_all add: session_sql_def)

text \<open>
  Claim C4, as stated, fails in one point: the message of the error names the source file
  of the service and nothing else of it. The service \<open>shop_services-orders\<close> with the file
  \<open>services/orders.ts\<close> declares a database in a project without the feature: the session
  fails, and the name of the service is no part of the message.
\<close>

theorem collect_database_message_counterexample:
  "collectServiceRequirements (project_shop []) service_orders session_sql =
     Inl (ErrorString (database_message ''services/orders.ts'')) \<and>
   Error (ErrorString (database_message ''services/orders.ts'')) =
     database_message ''services/orders.ts'' \<and>
   \<not> strings_Contains (database_message ''services/orders.ts'') (Name service_orders)"
proof (intro conjI)
  show "collectServiceRequirements (project_shop []) service_orders session_sql =
          Inl (ErrorString (database_message ''services/orders.ts''))"
    by (simp add: collect_completed [OF session_sql_completes]
        HasDatabases_session_sql GetFilePath_service_orders)
      (simp add: project_shop_def)
  show "Error (ErrorString (database_message ''services/orders.ts'')) =
          database_message ''services/orders.ts''"
    by simp
  show "\<not> strings_Contains (database_message ''services/orders.ts'') (Name service_orders)"
    unfolding service_orders_def by code_simp
qed

text \<open>
  Claim C4, amended: for every session whose listener starts and whose service process
  completes, if the requirements collected declare a SQL database and the preview features
  of the project do not include database support, the session fails with the error whose
  message is \<open>database_message\<close> of the service's source file, a message that contains the
  path of that file; if the feature is present, or no database is declared, the session
  returns the requirements collected.
\<close>

theorem collect_database_check:
  assumes "listen ev = Inr addr" and "split_port ev = Inr port" and "run_container ev = None"
  shows "collectServiceRequirements p s ev =
           (if HasDatabases (registered ev (NewServiceRequirements (Name s) (GetFilePath s) (Type s))) \<and>
               Feature_SqlDatabases \<notin> set (Preview p)
            then Inl (ErrorString (database_message (GetFilePath s)))
            else Inr (registered ev (NewServiceRequirements (Name s) (GetFilePath s) (Type s)))) \<and>
         strings_Contains (database_message (GetFilePath s)) (GetFilePath s)"
proof -
  have "strings_Contains (database_message (GetFilePath s)) (GetFilePath s)"
    unfolding database_message_def by (rule strings_Contains_mid)
  then show ?thesis
    using assms by (simp add: collect_completed)
qed

theorem collect_database_check_witness:
  "listen session_sql = Inr ''[::]:50051'' \<and> split_port session_sql = Inr ''50051'' \<and>
   run_container session_sql = None \<and>
   collectServiceRequirements (project_shop []) service_orders session_sql =
     Inl (ErrorString (database_message ''services/orders.ts'')) \<and>
   strings_Contains (database_message ''services/orders.ts'') ''services/orders.ts'' \<and>
   collectServiceRequirements (project_shop [''sql-databases'']) service_orders session_sql =
     Inr \<lparr>serviceName = ''shop_services-orders'', serviceFile = ''services/orders.ts'',
          serviceType = ''default'', sqlDatabases = [''orders-db'']\<rparr>"
  using collect_database_check [OF session_sql_completes, of "project_shop []" service_orders]
    collect_database_check [OF session_sql_completes, of "project_shop [''sql-databases'']"
      service_orders]
  by (simp add: session_sql_completes HasDatabases_session_sql GetFilePath_service_orders)
    (simp add: project_shop_def Feature_SqlDatabases_def session_sql_def
      NewServiceRequirements_def service_orders_def)

section \<open>Collecting requirements: all services\<close>

lemma collect_goroutine_fields:
  "allServiceRequirements (collect_goroutine p evs st i) =
     allServiceRequirements st @
       (if isl (session_result p evs i) then [] else [projr (session_result p evs i)])"
  "serviceErrors (collect_goroutine p evs st i) =
     serviceErrors st @
       (if isl (session_result p evs i) then [projl (session_result p evs i)] else [])"
  by (cases "collectServiceRequirements p (services p ! i) (evs i)";
      simp add: collect_goroutine_def session_result_def)+

lemma foldl_collect_reqs:
  "allServiceRequirements (foldl (collect_goroutine p evs) st js) =
     allServiceRequirements st @
       map (\<lambda>i. projr (session_result p evs i))
         (filter (\<lambda>i. \<not> isl (session_result p evs i)) js)"
  by (induction js arbitrary: st) (simp_all add: collect_goroutine_fields)

lemma foldl_collect_errs:
  "serviceErrors (foldl (collect_goroutine p evs) st js) =
     serviceErrors st @
       map (\<lambda>i. projl (session_result p evs i))
         (filter (\<lambda>i. isl (session_result p evs i)) js)"
  by (induction js arbitrary: st) (simp_all add: collect_goroutine_fields)

lemma mset_map_filter_cong:
  "mset js = mset ks \<Longrightarrow> mset (map f (filter P js)) = mset (map f (filter P ks))"
  by (metis mset_filter mset_map)

text \<open>
  Claim C3. For every project and every order in which the sessions finish: if the session
  of at least one service fails, \<open>CollectServicesRequirements\<close> returns no requirements
  and the one error that joins the errors of all failing sessions, each once; if no session
  fails, it returns the requirements of every service, one per service, and no error.
\<close>

theorem Collect_all_or_nothing:
  assumes "mset finished = mset [0..<length (services p)]"
  shows "(failing p evs \<noteq> [] \<longrightarrow>
            (\<exists>errs. CollectServicesRequirements p evs finished = (None, Some (JoinError errs)) \<and>
               mset errs = mset (map (\<lambda>i. projl (session_result p evs i)) (failing p evs)))) \<and>
         (failing p evs = [] \<longrightarrow>
            (\<exists>reqs. CollectServicesRequirements p evs finished = (Some reqs, None) \<and>
               length reqs = length (services p) \<and>
               mset reqs = mset (map (\<lambda>i. projr (session_result p evs i)) [0..<length (services p)])))"
proof -
  let ?st = "foldl (collect_goroutine p evs)
               \<lparr>allServiceRequirements = [], serviceErrors = []\<rparr> finished"
  let ?n = "length (services p)"
  have errs: "serviceErrors ?st =
      map (\<lambda>i. projl (session_result p evs i)) (filter (\<lambda>i. isl (session_result p evs i)) finished)"
    by (simp add: foldl_collect_errs)
  have reqs: "allServiceRequirements ?st =
      map (\<lambda>i. projr (session_result p evs i)) (filter (\<lambda>i. \<not> isl (session_result p evs i)) finished)"
    by (simp add: foldl_collect_reqs)
  have merrs: "mset (serviceErrors ?st) =
      mset (map (\<lambda>i. projl (session_result p evs i)) (failing p evs))"
    unfolding errs failing_def by (rule mset_map_filter_cong [OF assms])
  have mreqs: "mset (allServiceRequirements ?st) =
      mset (map (\<lambda>i. projr (session_result p evs i))
             (filter (\<lambda>i. \<not> isl (session_result p evs i)) [0..<?n]))"
    unfolding reqs by (rule mset_map_filter_cong [OF assms])
  have res: "CollectServicesRequirements p evs finished =
      (if serviceErrors ?st \<noteq> [] then (None, Some (JoinError (serviceErrors ?st)))
       else (Some (allServiceRequirements ?st), None))"
    by (simp add: CollectServicesRequirements_def Let_def errors_Join_def)
  have nonempty: "serviceErrors ?st \<noteq> [] \<longleftrightarrow> failing p evs \<noteq> []"
    using merrs by (metis mset_zero_iff map_is_Nil_conv)
  show ?thesis
  proof (intro conjI impI)
    assume f: "failing p evs \<noteq> []"
    then show "\<exists>errs. CollectServicesRequirements p evs finished = (None, Some (JoinError errs)) \<and>
               mset errs = mset (map (\<lambda>i. projl (session_result p evs i)) (failing p evs))"
      using res nonempty merrs by auto
  next
    assume f: "failing p evs = []"
    then have all: "filter (\<lambda>i. \<not> isl (session_result p evs i)) [0..<?n] = [0..<?n]"
      by (auto simp: failing_def filter_empty_conv filter_id_conv)
    have "mset (allServiceRequirements ?st) =
            mset (map (\<lambda>i. projr (session_result p evs i)) [0..<?n])"
      using mreqs all by simp
    moreover from this have "length (allServiceRequirements ?st) = ?n"
      by (metis length_map length_upt mset_eq_length minus_nat.diff_0)
    ultimately show "\<exists>reqs. CollectServicesRequirements p evs finished = (Some reqs, None) \<and>
               length reqs = length (services p) \<and>
               mset reqs = mset (map (\<lambda>i. projr (session_result p evs i)) [0..<length (services p)])"
      using res nonempty f by auto
  qed
qed

lemma upt_services_abc: "[0..<length (services project_abc)] = [0, 1, 2]"
  by code_simp

lemma session_result_abc:
  "session_result project_abc sessions_abc 0 =
     Inr (NewServiceRequirements ''A'' ''A.ts'' ''default'')"
  "session_result project_abc sessions_abc (Suc 0) = Inl (ErrorString ''exit status 1'')"
  "session_result project_abc sessions_abc 2 =
     Inr (NewServiceRequirements ''C'' ''C.ts'' ''default'')"
  by (simp_all add: session_result_def collectServiceRequirements_def project_abc_def
      sessions_abc_def session_crash_def session_plain_def service_named_def GetFilePath_def
      HasDatabases_def NewServiceRequirements_def)

lemma failing_abc: "failing project_abc sessions_abc = [1]"
  by (simp add: failing_def upt_services_abc session_result_abc)

theorem Collect_all_or_nothing_witness:
  "mset [2, 0, 1] = mset [0..<length (services project_abc)] \<and>
   failing project_abc sessions_abc = [1] \<and>
   CollectServicesRequirements project_abc sessions_abc [2, 0, 1] =
     (None, Some (JoinError [ErrorString ''exit status 1'']))"
  using Collect_all_or_nothing [of "[2, 0, 1]" project_abc sessions_abc]
  by (simp add: upt_services_abc failing_abc session_result_abc)

section \<open>Building the services: the invariant\<close>

lemma length_filter_update:
  "i < length xs \<Longrightarrow>
     length (filter P (xs[i := y])) + (if P (xs ! i) then 1 else 0) =
     length (filter P xs) + (if P y then 1 else 0)"
proof (induction xs arbitrary: i)
  case Nil
  then show ?case by simp
next
  case (Cons x xs)
  show ?case
  proof (cases i)
    case 0
    then show ?thesis by simp
  next
    case (Suc j)
    with Cons.prems have "j < length xs" by simp
    from Cons.IH [OF this] show ?thesis by (simp add: Suc)
  qed
qed

lemma sent_from_update_same:
  "i < length pcs \<Longrightarrow> has_sent y = has_sent (pcs ! i) \<Longrightarrow>
     sent_from p evs k (pcs[i := y]) = sent_from p evs k pcs"
proof (induction pcs arbitrary: i k)
  case Nil
  then show ?case by simp
next
  case (Cons pc pcs)
  then show ?case by (cases i) simp_all
qed

lemma sent_from_update_gain:
  "i < length pcs \<Longrightarrow> \<not> has_sent (pcs ! i) \<Longrightarrow> has_sent y \<Longrightarrow>
     mset (sent_from p evs k (pcs[i := y])) =
       add_mset (service_update p evs (k + i)) (mset (sent_from p evs k pcs))"
proof (induction pcs arbitrary: i k)
  case Nil
  then show ?case by simp
next
  case (Cons pc pcs)
  then show ?case by (cases i) simp_all
qed

lemma sent_from_snoc:
  "sent_from p evs k (pcs @ [pc]) =
     sent_from p evs k pcs @ (if has_sent pc then [service_update p evs (k + length pcs)] else [])"
  by (induction pcs arbitrary: k) simp_all

lemma sent_from_all:
  "list_all has_sent pcs \<Longrightarrow>
     sent_from p evs k pcs = map (service_update p evs) [k..<k + length pcs]"
proof (induction pcs arbitrary: k)
  case Nil
  then show ?case by simp
next
  case (Cons pc pcs)
  then have "sent_from p evs (Suc k) pcs = map (service_update p evs) [Suc k..<Suc k + length pcs]"
    by simp
  moreover have "[k..<k + length (pc # pcs)] = k # [Suc k..<k + length (pc # pcs)]"
    by (rule upt_conv_Cons) simp
  ultimately show ?case using Cons.prems by simp
qed

lemmas inv_defs = build_inv_def main_inv_def wait_inv_def permit_inv_def closer_inv_def
  result_inv_def updates_inv_def permits_held_def

lemma main_step_inv:
  assumes "build_inv p cap evs s" and "main_step p (main s) s = Some s'"
  shows "build_inv p cap evs s'"
proof (cases "main s")
  case (Main_Add i)
  then show ?thesis
    using assms by (auto simp: inv_defs split: if_splits closer_pc.splits)
next
  case (Main_Go i)
  then show ?thesis
    using assms
    by (auto simp: inv_defs sent_from_snoc nth_append split: if_splits closer_pc.splits)
next
  case Main_Return
  then show ?thesis using assms by simp
qed

lemma all_exit_no_permit:
  "list_all (\<lambda>pc. pc = W_Exit) pcs \<Longrightarrow> length (filter holds_permit pcs) = 0"
  by (induction pcs) auto

lemma closer_step_inv:
  assumes "build_inv p cap evs s" and "closer_step cap (closer s) s = Some s'"
  shows "build_inv p cap evs s'"
proof (cases "closer s")
  case C_NotStarted
  then show ?thesis using assms by simp
next
  case C_Wait
  with assms have w: "waitGroup s = 0" and s': "s' = s\<lparr>closer := C_Drain 0\<rparr>"
    by (auto split: if_splits)
  from w assms(1) have "list_all (\<lambda>pc. pc = W_Exit) (wpc s)"
    by (simp add: build_inv_def wait_inv_def filter_empty_conv list_all_iff)
  then show ?thesis
    using assms(1) C_Wait by (auto simp: inv_defs s' split: main_pc.splits)
next
  case (C_Drain j)
  show ?thesis
  proof (cases "j < cap")
    case True
    with assms C_Drain show ?thesis
      by (auto simp: inv_defs split: if_splits main_pc.splits)
  next
    case False
    with assms C_Drain show ?thesis
      by (auto simp: inv_defs split: if_splits main_pc.splits)
  qed
next
  case C_Exit
  then show ?thesis using assms by simp
qed

lemma not_all_exit:
  "i < length pcs \<Longrightarrow> pcs ! i \<noteq> W_Exit \<Longrightarrow> \<not> list_all (\<lambda>pc. pc = W_Exit) pcs"
  by (auto simp: list_all_length)

lemma running_not_closed:
  assumes "build_inv p cap evs s" and "i < length (wpc s)" and "wpc s ! i \<noteq> W_Exit"
  shows "\<not> closed s" and "closer s = C_NotStarted \<or> closer s = C_Wait"
  using assms not_all_exit [of i "wpc s"]
  by (auto simp: build_inv_def closer_inv_def split: closer_pc.splits)

lemma terminal_writer_update: "\<not> terminal (writer_update n c)"
  by (simp add: terminal_def writer_update_def)

lemma terminal_build_update: "terminal (build_update svc r)"
  by (cases r) (simp_all add: terminal_def build_update_def)

text \<open>A step of a build goroutine, as a change of its program counter and of the shared state.\<close>

lemma main_inv_worker:
  "main_inv p s \<Longrightarrow> main s' = main s \<Longrightarrow> closer s' = closer s \<Longrightarrow>
     length (wpc s') = length (wpc s) \<Longrightarrow> main_inv p s'"
  by (cases "main s") (simp_all add: main_inv_def)

lemma closer_inv_worker:
  "closer_inv cap s \<Longrightarrow> closer s = C_NotStarted \<or> closer s = C_Wait \<Longrightarrow>
     closer s' = closer s \<Longrightarrow> closed s' = closed s \<Longrightarrow> closer_inv cap s'"
  by (auto simp: closer_inv_def)

lemma result_inv_worker:
  "result_inv evs s \<Longrightarrow> i < length (wpc s) \<Longrightarrow> wpc s' = (wpc s)[i := pc] \<Longrightarrow>
     (\<And>r. pc = W_Send r \<Longrightarrow> r = result (evs i)) \<Longrightarrow> result_inv evs s'"
  by (auto simp: result_inv_def nth_list_update)

lemma worker_transition:
  assumes inv: "build_inv p cap evs s" and i: "i < length (wpc s)" and run: "wpc s ! i \<noteq> W_Exit"
    and w: "wpc s' = (wpc s)[i := pc']"
    and same: "main s' = main s" "closer s' = closer s" "closed s' = closed s"
      "panicked s' = panicked s"
    and res: "\<And>r. pc' = W_Send r \<Longrightarrow> r = result (evs i)"
    and wait: "waitGroup s' + (if pc' = W_Exit then 1 else 0) = waitGroup s"
    and permit: "maxConcurrentBuilds s' + (if holds_permit (wpc s ! i) then 1 else 0) =
                 maxConcurrentBuilds s + (if holds_permit pc' then 1 else 0)"
      "maxConcurrentBuilds s' \<le> cap"
    and upd: "mset (filter terminal (updatesChan s')) =
                mset (filter terminal (updatesChan s)) +
                (if has_sent pc' \<and> \<not> has_sent (wpc s ! i) then {#service_update p evs i#} else {#})"
      "has_sent (wpc s ! i) \<Longrightarrow> has_sent pc'"
  shows "build_inv p cap evs s'"
proof -
  from inv have parts: "\<not> panicked s" "main_inv p s" "wait_inv s" "permit_inv cap s"
    "closer_inv cap s" "result_inv evs s" "updates_inv p evs s"
    by (simp_all add: build_inv_def)
  have len: "length (wpc s') = length (wpc s)" by (simp add: w)
  have "\<not> panicked s'" using parts(1) same(4) by simp
  moreover have "main_inv p s'"
    by (rule main_inv_worker [OF parts(2) same(1) same(2) len])
  moreover have "wait_inv s'"
  proof -
    have "length (filter (\<lambda>pc. pc \<noteq> W_Exit) ((wpc s)[i := pc'])) + 1 =
          length (filter (\<lambda>pc. pc \<noteq> W_Exit) (wpc s)) + (if pc' \<noteq> W_Exit then 1 else 0)"
      using length_filter_update [OF i, of "\<lambda>pc. pc \<noteq> W_Exit" pc'] run by simp
    with parts(3) wait show ?thesis
      by (simp add: wait_inv_def w same(1) split: if_splits)
  qed
  moreover have "permit_inv cap s'"
  proof -
    have "length (filter holds_permit ((wpc s)[i := pc'])) +
            (if holds_permit (wpc s ! i) then 1 else 0) =
          length (filter holds_permit (wpc s)) + (if holds_permit pc' then 1 else 0)"
      by (rule length_filter_update [OF i])
    with parts(4) permit show ?thesis
      by (simp add: permit_inv_def permits_held_def w same(2) split: if_splits)
  qed
  moreover have "closer_inv cap s'"
    by (rule closer_inv_worker [OF parts(5) running_not_closed(2) [OF inv i run] same(2) same(3)])
  moreover have "result_inv evs s'"
    by (rule result_inv_worker [OF parts(6) i w res])
  moreover have "updates_inv p evs s'"
  proof (cases "has_sent pc' \<and> \<not> has_sent (wpc s ! i)")
    case True
    then have "mset (sent_from p evs 0 ((wpc s)[i := pc'])) =
        add_mset (service_update p evs i) (mset (sent_from p evs 0 (wpc s)))"
      using sent_from_update_gain [OF i, of pc' p evs 0] by simp
    with parts(7) upd(1) True show ?thesis
      by (simp add: updates_inv_def w)
  next
    case False
    with upd(2) have eq: "has_sent pc' = has_sent (wpc s ! i)" by blast
    have "sent_from p evs 0 ((wpc s)[i := pc']) = sent_from p evs 0 (wpc s)"
      by (rule sent_from_update_same [OF i eq])
    with parts(7) upd(1) False show ?thesis
      by (simp add: updates_inv_def w)
  qed
  ultimately show ?thesis by (simp add: build_inv_def)
qed

lemma filter_pos: "i < length xs \<Longrightarrow> P (xs ! i) \<Longrightarrow> 0 < length (filter P xs)"
  by (auto simp: filter_empty_conv intro: nth_mem)

lemma permit_pos:
  assumes "build_inv p cap evs s" and "i < length (wpc s)" and "holds_permit (wpc s ! i)"
  shows "0 < maxConcurrentBuilds s"
  using assms filter_pos [of i "wpc s" holds_permit]
  by (simp add: build_inv_def permit_inv_def permits_held_def)

lemma waitGroup_pos:
  assumes "build_inv p cap evs s" and "i < length (wpc s)" and "wpc s ! i \<noteq> W_Exit"
  shows "0 < waitGroup s"
  using assms filter_pos [of i "wpc s" "\<lambda>pc. pc \<noteq> W_Exit"]
  by (simp add: build_inv_def wait_inv_def)

text \<open>What a step of a build goroutine is, in a state of the invariant.\<close>

lemma worker_step_cases [consumes 3, case_names acquire chunk built send release finish]:
  assumes inv: "build_inv p cap evs s" and i: "i < length (wpc s)"
    and step: "worker_step p cap evs i (wpc s ! i) s = Some s'"
  obtains
    "wpc s ! i = W_Acquire" and "maxConcurrentBuilds s < cap"
      and "s' = set_wpc i (W_Build (chunks (evs i)))
                  (s\<lparr>maxConcurrentBuilds := maxConcurrentBuilds s + 1\<rparr>)"
  | c cs where "wpc s ! i = W_Build (c # cs)"
      and "s' = set_wpc i (W_Build cs)
                  (s\<lparr>updatesChan := updatesChan s @ [writer_update (Name (services p ! i)) c]\<rparr>)"
  | "wpc s ! i = W_Build []" and "s' = set_wpc i (W_Send (result (evs i))) s"
  | "wpc s ! i = W_Send (result (evs i))"
      and "s' = set_wpc i W_Release (s\<lparr>updatesChan := updatesChan s @ [service_update p evs i]\<rparr>)"
  | "wpc s ! i = W_Release" and "0 < maxConcurrentBuilds s"
      and "s' = set_wpc i W_Done (s\<lparr>maxConcurrentBuilds := maxConcurrentBuilds s - 1\<rparr>)"
  | "wpc s ! i = W_Done" and "0 < waitGroup s"
      and "s' = set_wpc i W_Exit (s\<lparr>waitGroup := waitGroup s - 1\<rparr>)"
proof (cases "wpc s ! i")
  case W_Acquire
  with step that(1) show ?thesis by (auto split: if_splits)
next
  case (W_Build cs)
  from running_not_closed(1) [OF inv i] W_Build have nc: "\<not> closed s" by simp
  show ?thesis
  proof (cases cs)
    case Nil
    with step W_Build that(3) show ?thesis by simp
  next
    case (Cons c cs')
    with step W_Build nc that(2) show ?thesis by (simp add: chan_send_def)
  qed
next
  case (W_Send r)
  from running_not_closed(1) [OF inv i] W_Send have nc: "\<not> closed s" by simp
  from inv i W_Send have r: "r = result (evs i)"
    by (simp add: build_inv_def result_inv_def)
  with step W_Send nc that(4) show ?thesis
    by (simp add: chan_send_def service_update_def)
next
  case W_Release
  with step that(5) show ?thesis by (auto split: if_splits)
next
  case W_Done
  with waitGroup_pos [OF inv i] have "0 < waitGroup s" by simp
  with step W_Done that(6) show ?thesis by simp
next
  case W_Exit
  with step show ?thesis by simp
qed

lemma worker_step_inv:
  assumes inv: "build_inv p cap evs s" and i: "i < length (wpc s)"
    and step: "worker_step p cap evs i (wpc s ! i) s = Some s'"
  shows "build_inv p cap evs s'"
proof -
  from inv have le: "maxConcurrentBuilds s \<le> cap" by (simp add: build_inv_def permit_inv_def)
  from inv i step show ?thesis
  proof (cases rule: worker_step_cases)
    case acquire
    then show ?thesis
      by (intro worker_transition [OF inv i, where pc' = "W_Build (chunks (evs i))"])
        (simp_all add: set_wpc_def)
  next
    case (chunk c cs)
    with le show ?thesis
      by (intro worker_transition [OF inv i, where pc' = "W_Build cs"])
        (simp_all add: set_wpc_def terminal_writer_update)
  next
    case built
    with le show ?thesis
      by (intro worker_transition [OF inv i, where pc' = "W_Send (result (evs i))"])
        (simp_all add: set_wpc_def)
  next
    case send
    with le show ?thesis
      by (intro worker_transition [OF inv i, where pc' = W_Release])
        (simp_all add: set_wpc_def service_update_def terminal_build_update)
  next
    case release
    with le show ?thesis
      by (intro worker_transition [OF inv i, where pc' = W_Done])
        (simp_all add: set_wpc_def)
  next
    case finish
    with le show ?thesis
      by (intro worker_transition [OF inv i, where pc' = W_Exit])
        (simp_all add: set_wpc_def)
  qed
qed

lemma step_inv:
  assumes "build_inv p cap evs s" and "step p cap evs g s = Some s'"
  shows "build_inv p cap evs s'"
proof (cases g)
  case Main
  with assms show ?thesis
    by (auto simp: step_def split: if_splits intro: main_step_inv)
next
  case (Worker i)
  with assms show ?thesis
    by (auto simp: step_def split: if_splits intro: worker_step_inv)
next
  case Closer
  with assms show ?thesis
    by (auto simp: step_def split: if_splits intro: closer_step_inv)
qed

lemma build_inv_start: "build_inv p cap evs build_start"
  by (simp add: inv_defs build_start_def)

lemma exec_inv: "build_inv p cap evs s \<Longrightarrow> build_inv p cap evs (exec p cap evs gs s)"
proof (induction gs arbitrary: s)
  case Nil
  then show ?case by simp
next
  case (Cons g gs)
  show ?case
  proof (cases "step p cap evs g s")
    case None
    with Cons show ?thesis by simp
  next
    case (Some s')
    have "build_inv p cap evs s'" by (rule step_inv [OF Cons.prems Some])
    with Cons.IH Some show ?thesis by simp
  qed
qed

lemma reachable_inv: "build_inv p cap evs (exec p cap evs gs build_start)"
  by (rule exec_inv [OF build_inv_start])

section \<open>Building the services: every run ends\<close>

lemma work_left_update:
  "i < length pcs \<Longrightarrow>
     work_left evs k (pcs[i := pc']) + pc_left (evs (k + i)) (pcs ! i) =
     work_left evs k pcs + pc_left (evs (k + i)) pc'"
proof (induction pcs arbitrary: i k)
  case Nil
  then show ?case by simp
next
  case (Cons pc pcs)
  show ?case
  proof (cases i)
    case 0
    then show ?thesis by simp
  next
    case (Suc j)
    with Cons.prems have "j < length pcs" by simp
    from Cons.IH [OF this, of "k + 1"] show ?thesis by (simp add: Suc)
  qed
qed

lemma work_left_snoc:
  "work_left evs k (pcs @ [pc]) = work_left evs k pcs + pc_left (evs (k + length pcs)) pc"
  by (induction pcs arbitrary: k) simp_all

lemma worker_step_decreases:
  assumes inv: "build_inv p cap evs s" and i: "i < length (wpc s)"
    and step: "worker_step p cap evs i (wpc s ! i) s = Some s'"
  shows "steps_left p cap evs s' < steps_left p cap evs s"
proof -
  have *: "steps_left p cap evs s' < steps_left p cap evs s"
    if "wpc s' = (wpc s)[i := pc']" and "main s' = main s" and "closer s' = closer s"
      and "pc_left (evs i) pc' < pc_left (evs i) (wpc s ! i)" for pc'
  proof -
    from work_left_update [OF i, of evs 0 pc'] that(4)
    have "work_left evs 0 ((wpc s)[i := pc']) < work_left evs 0 (wpc s)" by simp
    with that(1-3) show ?thesis by (simp add: steps_left_def)
  qed
  from inv i step show ?thesis
  proof (cases rule: worker_step_cases)
    case acquire
    then show ?thesis by (intro * [of "W_Build (chunks (evs i))"]) (simp_all add: set_wpc_def)
  next
    case (chunk c cs)
    then show ?thesis by (intro * [of "W_Build cs"]) (simp_all add: set_wpc_def)
  next
    case built
    then show ?thesis by (intro * [of "W_Send (result (evs i))"]) (simp_all add: set_wpc_def)
  next
    case send
    then show ?thesis by (intro * [of W_Release]) (simp_all add: set_wpc_def)
  next
    case release
    then show ?thesis by (intro * [of W_Done]) (simp_all add: set_wpc_def)
  next
    case finish
    then show ?thesis by (intro * [of W_Exit]) (simp_all add: set_wpc_def)
  qed
qed

lemma main_step_decreases:
  assumes inv: "build_inv p cap evs s" and step: "main_step p (main s) s = Some s'"
  shows "steps_left p cap evs s' < steps_left p cap evs s"
proof (cases "main s")
  case (Main_Add i)
  from inv Main_Add have "closer s = C_NotStarted" by (simp add: build_inv_def main_inv_def)
  with step Main_Add show ?thesis
    by (auto simp: steps_left_def split: if_splits)
next
  case (Main_Go i)
  from inv Main_Go have len: "length (wpc s) = i" and i: "i < length (services p)"
    by (simp_all add: build_inv_def main_inv_def)
  have "[i..<length (services p)] = i # [Suc i..<length (services p)]"
    by (rule upt_conv_Cons [OF i])
  with step Main_Go len i show ?thesis
    by (auto simp: steps_left_def work_left_snoc)
next
  case Main_Return
  with step show ?thesis by simp
qed

lemma closer_step_decreases:
  assumes inv: "build_inv p cap evs s" and step: "closer_step cap (closer s) s = Some s'"
  shows "steps_left p cap evs s' < steps_left p cap evs s"
proof (cases "closer s")
  case C_NotStarted
  with step show ?thesis by simp
next
  case C_Wait
  with step show ?thesis by (auto simp: steps_left_def split: if_splits)
next
  case (C_Drain j)
  from inv C_Drain have "\<not> closed s" by (simp add: build_inv_def closer_inv_def)
  with step C_Drain show ?thesis by (auto simp: steps_left_def split: if_splits)
next
  case C_Exit
  with step show ?thesis by simp
qed

lemma step_decreases:
  assumes "build_inv p cap evs s" and "step p cap evs g s = Some s'"
  shows "steps_left p cap evs s' < steps_left p cap evs s"
proof (cases g)
  case Main
  with assms show ?thesis
    by (auto simp: step_def split: if_splits intro: main_step_decreases)
next
  case (Worker i)
  with assms show ?thesis
    by (auto simp: step_def split: if_splits intro: worker_step_decreases)
next
  case Closer
  with assms show ?thesis
    by (auto simp: step_def split: if_splits intro: closer_step_decreases)
qed

lemma worker_enabled:
  assumes inv: "build_inv p cap evs s" and i: "i < length (wpc s)"
    and pc: "wpc s ! i \<noteq> W_Exit" and free: "wpc s ! i = W_Acquire \<Longrightarrow> maxConcurrentBuilds s < cap"
  shows "\<exists>s'. step p cap evs (Worker i) s = Some s'"
proof -
  from inv have np: "\<not> panicked s" by (simp add: build_inv_def)
  show ?thesis
  proof (cases "wpc s ! i")
    case (W_Build cs)
    with np i show ?thesis by (cases cs) (simp_all add: step_def)
  next
    case W_Release
    with permit_pos [OF inv i] np i show ?thesis by (simp add: step_def)
  qed (use np i pc free in \<open>simp_all add: step_def\<close>)
qed

lemma progress:
  assumes inv: "build_inv p cap evs s" and nclosed: "\<not> closed s" and cap: "0 < cap"
  shows "\<exists>g s'. step p cap evs g s = Some s'"
proof -
  from inv have np: "\<not> panicked s" by (simp add: build_inv_def)
  show ?thesis
  proof (cases "main s")
    case (Main_Add i)
    with np have "\<exists>s'. step p cap evs Main s = Some s'" by (simp add: step_def)
    then show ?thesis by blast
  next
    case (Main_Go i)
    with np have "\<exists>s'. step p cap evs Main s = Some s'" by (simp add: step_def)
    then show ?thesis by blast
  next
    case Main_Return
    show ?thesis
    proof (cases "closer s")
      case C_NotStarted
      with inv Main_Return show ?thesis by (simp add: build_inv_def main_inv_def)
    next
      case C_Wait
      show ?thesis
      proof (cases "waitGroup s = 0")
        case True
        with np C_Wait have "\<exists>s'. step p cap evs Closer s = Some s'" by (simp add: step_def)
        then show ?thesis by blast
      next
        case False
        with inv Main_Return have "filter (\<lambda>pc. pc \<noteq> W_Exit) (wpc s) \<noteq> []"
          by (auto simp: build_inv_def wait_inv_def)
        then obtain pc where "pc \<in> set (wpc s)" and "pc \<noteq> W_Exit"
          by (auto simp: filter_empty_conv)
        then obtain i where i: "i < length (wpc s)" and run: "wpc s ! i \<noteq> W_Exit"
          by (auto simp: in_set_conv_nth)
        show ?thesis
        proof (cases "maxConcurrentBuilds s < cap")
          case True
          with worker_enabled [OF inv i run] show ?thesis by blast
        next
          case False
          with inv C_Wait cap have "filter holds_permit (wpc s) \<noteq> []"
            by (auto simp: build_inv_def permit_inv_def permits_held_def)
          then obtain pc' where "pc' \<in> set (wpc s)" and "holds_permit pc'"
            by (auto simp: filter_empty_conv)
          then obtain j where j: "j < length (wpc s)" and h: "holds_permit (wpc s ! j)"
            by (auto simp: in_set_conv_nth)
          from h have "wpc s ! j \<noteq> W_Exit" "wpc s ! j \<noteq> W_Acquire" by auto
          with worker_enabled [OF inv j] show ?thesis by blast
        qed
      qed
    next
      case (C_Drain j)
      with inv have all: "list_all (\<lambda>pc. pc = W_Exit) (wpc s)"
        and sem: "maxConcurrentBuilds s = permits_held s + j"
        by (simp_all add: build_inv_def closer_inv_def permit_inv_def)
      from all have "permits_held s = 0"
        by (simp add: permits_held_def all_exit_no_permit)
      with sem np C_Drain nclosed have "\<exists>s'. step p cap evs Closer s = Some s'"
        by (simp add: step_def)
      then show ?thesis by blast
    next
      case C_Exit
      with inv nclosed show ?thesis by (simp add: build_inv_def closer_inv_def)
    qed
  qed
qed

lemma can_close:
  assumes "build_inv p cap evs s" and "0 < cap"
  shows "\<exists>gs. closed (exec p cap evs gs s)"
  using assms(1)
proof (induction "steps_left p cap evs s" arbitrary: s rule: less_induct)
  case less
  show ?case
  proof (cases "closed s")
    case True
    then have "closed (exec p cap evs [] s)" by simp
    then show ?thesis by blast
  next
    case False
    from progress [OF less.prems False assms(2)]
    obtain g s' where st: "step p cap evs g s = Some s'" by blast
    have "build_inv p cap evs s'" by (rule step_inv [OF less.prems st])
    moreover have "steps_left p cap evs s' < steps_left p cap evs s"
      by (rule step_decreases [OF less.prems st])
    ultimately obtain gs where "closed (exec p cap evs gs s')"
      using less.hyps by blast
    with st have "closed (exec p cap evs (g # gs) s)" by simp
    then show ?thesis by blast
  qed
qed

section \<open>Building the services: the stream and the permits\<close>

lemma sent_from_subset:
  "mset (sent_from p evs k pcs) \<subseteq># mset (map (service_update p evs) [k..<k + length pcs])"
proof (induction pcs arbitrary: k)
  case Nil
  then show ?case by simp
next
  case (Cons pc pcs)
  let ?rest = "mset (map (service_update p evs) [Suc k..<Suc k + length pcs])"
  have "k < Suc k + length pcs" by simp
  then have "[k..<Suc k + length pcs] = k # [Suc k..<Suc k + length pcs]"
    by (rule upt_conv_Cons)
  then have upt: "mset (map (service_update p evs) [k..<k + length (pc # pcs)]) =
      add_mset (service_update p evs k) ?rest"
    by (simp del: upt_Suc)
  have IH: "mset (sent_from p evs (Suc k) pcs) \<subseteq># ?rest" by (rule Cons.IH)
  then have "mset (sent_from p evs (Suc k) pcs) \<subseteq># add_mset (service_update p evs k) ?rest"
    by (rule subset_mset.order_trans) simp
  with IH show ?case
    unfolding upt by (simp del: upt_Suc)
qed

lemma sent_from_mem:
  "i < length pcs \<Longrightarrow> has_sent (pcs ! i) \<Longrightarrow>
     service_update p evs (k + i) \<in> set (sent_from p evs k pcs)"
proof (induction pcs arbitrary: i k)
  case Nil
  then show ?case by simp
next
  case (Cons pc pcs)
  show ?case
  proof (cases i)
    case 0
    with Cons.prems show ?thesis by simp
  next
    case (Suc j)
    with Cons.prems have "service_update p evs (Suc k + j) \<in> set (sent_from p evs (Suc k) pcs)"
      by (intro Cons.IH) simp_all
    then show ?thesis by (simp add: Suc)
  qed
qed

lemma spawned_le: "build_inv p cap evs s \<Longrightarrow> length (wpc s) \<le> length (services p)"
  by (auto simp: build_inv_def main_inv_def split: main_pc.splits)

lemma updates_subset:
  assumes inv: "build_inv p cap evs s"
  shows "mset (filter terminal (updatesChan s)) \<subseteq># mset (all_updates p evs)"
proof -
  have "[0..<length (services p)] =
          [0..<length (wpc s)] @ [length (wpc s)..<length (services p)]"
    using spawned_le [OF inv] by (metis le_add_diff_inverse upt_add_eq_append zero_le)
  then have "mset (map (service_update p evs) [0..<length (wpc s)]) \<subseteq># mset (all_updates p evs)"
    by (simp add: all_updates_def)
  moreover have "mset (sent_from p evs 0 (wpc s)) \<subseteq>#
      mset (map (service_update p evs) [0..<length (wpc s)])"
    using sent_from_subset [of p evs 0 "wpc s"] by simp
  moreover from inv have "mset (filter terminal (updatesChan s)) = mset (sent_from p evs 0 (wpc s))"
    by (simp add: build_inv_def updates_inv_def)
  ultimately show ?thesis by (simp add: subset_mset.order_trans)
qed

lemma closed_state:
  assumes inv: "build_inv p cap evs s" and c: "closed s"
  shows "closer s = C_Exit" and "main s = Main_Return"
    and "list_all (\<lambda>pc. pc = W_Exit) (wpc s)" and "length (wpc s) = length (services p)"
proof -
  from inv c show 1: "closer s = C_Exit"
    by (cases "closer s") (simp_all add: build_inv_def closer_inv_def)
  with inv show 2: "main s = Main_Return"
    by (cases "main s") (simp_all add: build_inv_def main_inv_def)
  from inv 1 show "list_all (\<lambda>pc. pc = W_Exit) (wpc s)"
    by (simp add: build_inv_def closer_inv_def)
  from inv 2 show "length (wpc s) = length (services p)"
    by (simp add: build_inv_def main_inv_def)
qed

lemma all_exit_sent: "list_all (\<lambda>pc. pc = W_Exit) pcs \<Longrightarrow> list_all has_sent pcs"
  by (induction pcs) auto

lemma closed_updates:
  assumes inv: "build_inv p cap evs s" and c: "closed s"
  shows "mset (filter terminal (updatesChan s)) = mset (all_updates p evs)"
proof -
  have "sent_from p evs 0 (wpc s) = map (service_update p evs) [0..<0 + length (wpc s)]"
    by (rule sent_from_all [OF all_exit_sent [OF closed_state(3) [OF inv c]]])
  then have "sent_from p evs 0 (wpc s) = all_updates p evs"
    by (simp add: all_updates_def closed_state(4) [OF inv c])
  with inv show ?thesis by (simp add: build_inv_def updates_inv_def)
qed

lemma closed_counters:
  assumes inv: "build_inv p cap evs s" and c: "closed s"
  shows "permits_held s = 0" and "waitGroup s = 0" and "maxConcurrentBuilds s = cap"
proof -
  note all = closed_state(3) [OF inv c]
  show 1: "permits_held s = 0"
    using all by (simp add: permits_held_def all_exit_no_permit)
  from all have "filter (\<lambda>pc. pc \<noteq> W_Exit) (wpc s) = []"
    by (simp add: filter_empty_conv list_all_iff)
  with inv closed_state(2) [OF inv c] show "waitGroup s = 0"
    by (simp add: build_inv_def wait_inv_def)
  from inv 1 closed_state(1) [OF inv c] show "maxConcurrentBuilds s = cap"
    by (simp add: build_inv_def permit_inv_def)
qed

lemma BuildServices_Some:
  "BuildServices p = (Some s0, None) \<longleftrightarrow> services p \<noteq> [] \<and> s0 = build_start"
  by (auto simp: BuildServices_def)



text \<open>
  Claim C7. \<open>BuildServices\<close> returns an error and no channel exactly when the project has
  no service; with services it returns the channel and no error, whatever the builds do.
  In every state that the goroutines reach, a service whose build has failed and whose
  goroutine is past its send has its update on the channel, with status Error, the error
  and the message of the error; once the channel is closed this holds for every service
  whose build fails.
\<close>

theorem BuildServices_failures:
  assumes "s = exec p cap evs gs build_start"
  shows "(BuildServices p = (None, Some (ErrorString no_services_message)) \<longleftrightarrow> services p = []) \<and>
         (services p \<noteq> [] \<longleftrightarrow> BuildServices p = (Some build_start, None)) \<and>
         (\<forall>i err. i < length (wpc s) \<and> has_sent (wpc s ! i) \<and> result (evs i) = Some err \<longrightarrow>
            \<lparr>ServiceName = Name (services p ! i), Message = Error err,
             Status = ServiceBuildStatus_Error, Err = Some err\<rparr> \<in> set (updatesChan s)) \<and>
         (\<forall>i err. closed s \<and> i < length (services p) \<and> result (evs i) = Some err \<longrightarrow>
            \<lparr>ServiceName = Name (services p ! i), Message = Error err,
             Status = ServiceBuildStatus_Error, Err = Some err\<rparr> \<in> set (updatesChan s))"
proof -
  have inv: "build_inv p cap evs s"
    unfolding assms by (rule reachable_inv)
  have sent: "\<lparr>ServiceName = Name (services p ! i), Message = Error err,
             Status = ServiceBuildStatus_Error, Err = Some err\<rparr> \<in> set (updatesChan s)"
    if "i < length (wpc s)" and "has_sent (wpc s ! i)" and "result (evs i) = Some err" for i err
  proof -
    from sent_from_mem [OF that(1,2), of p evs 0]
    have "service_update p evs i \<in># mset (sent_from p evs 0 (wpc s))" by simp
    with inv have "service_update p evs i \<in># mset (filter terminal (updatesChan s))"
      by (simp add: build_inv_def updates_inv_def)
    then have "service_update p evs i \<in> set (updatesChan s)" by simp
    with that(3) show ?thesis by (simp add: service_update_def build_update_def)
  qed
  have at_end: "\<lparr>ServiceName = Name (services p ! i), Message = Error err,
             Status = ServiceBuildStatus_Error, Err = Some err\<rparr> \<in> set (updatesChan s)"
    if "closed s" and "i < length (services p)" and "result (evs i) = Some err" for i err
  proof -
    from closed_state(3,4) [OF inv that(1)] that(2)
    have "i < length (wpc s)" and "wpc s ! i = W_Exit" by (simp_all add: list_all_length)
    with that(3) show ?thesis by (intro sent) simp_all
  qed
  show ?thesis
    using sent at_end by (auto simp: BuildServices_def)
qed

text \<open>
  Claim C8. With services to build, in every state that the goroutines reach: no
  goroutine has panicked (no send meets the closed channel); the terminal updates on the
  channel are updates of the services, at most one per service; once the channel is closed
  they are exactly one per service, every build goroutine is at its end, no permit is held
  by a build and all of them are with the closing goroutine. Until the channel is closed
  some goroutine can step, and every step of any goroutine lowers \<open>steps_left\<close>, the
  number of statements still to execute: the goroutines cannot run on for ever, and from
  every state they reach some schedule takes them on to the close.
\<close>

theorem BuildServices_stream:
  assumes "BuildServices p = (Some s0, None)" and "0 < numCPU" and "0 < gomaxprocs"
    and "s = exec p (build_cap numCPU gomaxprocs) evs gs s0"
  shows "\<not> panicked s \<and>
         mset (filter terminal (updatesChan s)) \<subseteq># mset (all_updates p evs) \<and>
         (closed s \<longrightarrow>
            mset (filter terminal (updatesChan s)) = mset (all_updates p evs) \<and>
            length (wpc s) = length (services p) \<and>
            list_all (\<lambda>pc. pc = W_Exit) (wpc s) \<and>
            waitGroup s = 0 \<and> permits_held s = 0 \<and>
            maxConcurrentBuilds s = build_cap numCPU gomaxprocs) \<and>
         (\<not> closed s \<longrightarrow> (\<exists>g s'. step p (build_cap numCPU gomaxprocs) evs g s = Some s')) \<and>
         (\<forall>g s'. step p (build_cap numCPU gomaxprocs) evs g s = Some s' \<longrightarrow>
            steps_left p (build_cap numCPU gomaxprocs) evs s' <
            steps_left p (build_cap numCPU gomaxprocs) evs s) \<and>
         (\<exists>gs'. closed (exec p (build_cap numCPU gomaxprocs) evs gs' s))"
proof -
  let ?cap = "build_cap numCPU gomaxprocs"
  from assms(1) have s0: "s0 = build_start" by (simp add: BuildServices_Some)
  have inv: "build_inv p ?cap evs s"
    unfolding assms(4) s0 by (rule reachable_inv)
  from assms(2,3) have cap: "0 < ?cap" by (simp add: build_cap_def)
  have "\<not> panicked s" using inv by (simp add: build_inv_def)
  moreover note updates_subset [OF inv]
  moreover have "closed s \<longrightarrow>
            mset (filter terminal (updatesChan s)) = mset (all_updates p evs) \<and>
            length (wpc s) = length (services p) \<and>
            list_all (\<lambda>pc. pc = W_Exit) (wpc s) \<and>
            waitGroup s = 0 \<and> permits_held s = 0 \<and> maxConcurrentBuilds s = ?cap"
    using closed_updates [OF inv] closed_state(3,4) [OF inv] closed_counters [OF inv] by blast
  moreover have "\<not> closed s \<longrightarrow> (\<exists>g s'. step p ?cap evs g s = Some s')"
    using progress [OF inv _ cap] by blast
  moreover have "\<forall>g s'. step p ?cap evs g s = Some s' \<longrightarrow>
            steps_left p ?cap evs s' < steps_left p ?cap evs s"
    using step_decreases [OF inv] by blast
  moreover note can_close [OF inv cap]
  ultimately show ?thesis by blast
qed


section \<open>Building the services: an example run\<close>

lemma BuildServices_abc: "BuildServices project_abc = (Some build_start, None)"
  by (simp add: BuildServices_def project_abc_def)

lemma run_abc_closed:
  "closed (exec project_abc (build_cap 2 8) builds_abc schedule_abc build_start)"
  by code_simp


lemma all_updates_abc:
  "all_updates project_abc builds_abc =
     [\<lparr>ServiceName = ''A'', Message = ''Build Complete'',
       Status = ServiceBuildStatus_Complete, Err = None\<rparr>,
      \<lparr>ServiceName = ''B'', Message = ''exit status 1'',
       Status = ServiceBuildStatus_Error, Err = Some (ErrorString ''exit status 1'')\<rparr>,
      \<lparr>ServiceName = ''C'', Message = ''Build Complete'',
       Status = ServiceBuildStatus_Complete, Err = None\<rparr>]"
  by code_simp

lemma service_B:
  "Suc 0 < length (services project_abc)"
  "result (builds_abc (Suc 0)) = Some (ErrorString ''exit status 1'')"
  "Name (services project_abc ! Suc 0) = ''B''"
  by (simp_all add: project_abc_def builds_abc_def service_named_def)

theorem BuildServices_failures_witness:
  "BuildServices project_empty = (None, Some (ErrorString no_services_message)) \<and>
   BuildServices project_abc = (Some build_start, None) \<and>
   closed (exec project_abc (build_cap 2 8) builds_abc schedule_abc build_start) \<and>
   \<lparr>ServiceName = ''B'', Message = ''exit status 1'',
    Status = ServiceBuildStatus_Error, Err = Some (ErrorString ''exit status 1'')\<rparr>
     \<in> set (updatesChan (exec project_abc (build_cap 2 8) builds_abc schedule_abc build_start))"
proof -
  let ?s = "exec project_abc (build_cap 2 8) builds_abc schedule_abc build_start"
  note inst = BuildServices_failures [OF refl, of project_abc "build_cap 2 8" builds_abc schedule_abc]
  note at_end = inst [THEN conjunct2, THEN conjunct2, THEN conjunct2, THEN spec, THEN spec,
      THEN mp, OF conjI [OF run_abc_closed conjI [OF service_B(1) service_B(2)]]]
  then have "\<lparr>ServiceName = ''B'', Message = ''exit status 1'',
         Status = ServiceBuildStatus_Error, Err = Some (ErrorString ''exit status 1'')\<rparr>
       \<in> set (updatesChan ?s)"
    by (simp only: service_B(3) Error.simps)
  moreover have "BuildServices project_empty = (None, Some (ErrorString no_services_message))"
    using BuildServices_failures [OF refl, of project_empty 1 builds_abc "[]", THEN conjunct1]
    by (simp add: project_empty_def)
  moreover note BuildServices_abc run_abc_closed
  ultimately show ?thesis by (intro conjI)
qed

lemma cpus_pos: "0 < (2::nat)" "0 < (8::nat)"
  by simp_all

theorem BuildServices_stream_witness:
  "BuildServices project_abc = (Some build_start, None) \<and>
   closed (exec project_abc (build_cap 2 8) builds_abc schedule_abc build_start) \<and>
   \<not> panicked (exec project_abc (build_cap 2 8) builds_abc schedule_abc build_start) \<and>
   mset (filter terminal
      (updatesChan (exec project_abc (build_cap 2 8) builds_abc schedule_abc build_start))) =
     mset (all_updates project_abc builds_abc) \<and>
   length (all_updates project_abc builds_abc) = 3 \<and>
   permits_held (exec project_abc (build_cap 2 8) builds_abc schedule_abc build_start) = 0"
proof -
  note inst = BuildServices_stream [OF BuildServices_abc cpus_pos refl, of builds_abc schedule_abc]
  note at_close = inst [THEN conjunct2, THEN conjunct2, THEN conjunct1, THEN mp, OF run_abc_closed]
  have "length (all_updates project_abc builds_abc) = 3"
    by (simp add: all_updates_abc)
  with BuildServices_abc run_abc_closed inst [THEN conjunct1] at_close [THEN conjunct1]
    at_close [THEN conjunct2, THEN conjunct2, THEN conjunct2, THEN conjunct2, THEN conjunct1]
  show ?thesis by (intro conjI)
qed


end
